theory Spec2Isabelle
  imports Main "HOL-Library.AList"
begin

section \<open>Data model\<close>

text \<open>
  The program (\<^verbatim>\<open>database/utils/convert_to_sql.py\<close>) keeps every table in a Python
  \<^verbatim>\<open>dict\<close>. A dict is modelled as an association list in insertion order whose keys
  are pairwise distinct: \<^const>\<open>AList.update\<close> overwrites the value of an existing key
  in place and appends a new key at the end, as \<^verbatim>\<open>d[k] = v\<close> does, and
  \<^const>\<open>map_of\<close> is the lookup. Taxon and division ids are Python integers, hence
  \<^typ>\<open>int\<close>. A Python \<^verbatim>\<open>set\<close> of ids is an \<^typ>\<open>int set\<close>.

  Text is modelled as \<^typ>\<open>string\<close>: the characters of a line after decoding, restricted
  to the code points below 256. A file is the list of the lines that \<^verbatim>\<open>for line in f\<close>
  yields.
\<close>

type_synonym division = "string \<times> string \<times> string"
type_synonym divisions = "(int \<times> division) list"
type_synonym node = "int \<times> string \<times> int"
type_synonym nodes = "(int \<times> node) list"
type_synonym names = "(int \<times> string) list"
type_synonym children_map = "(int \<times> int list) list"

text \<open>The exceptions the program can raise on its input data.\<close>

datatype error = ValueError | IndexError | KeyError int

section \<open>String primitives\<close>

text \<open>
  \<^verbatim>\<open>str.strip()\<close> without argument removes leading and trailing whitespace; below 256
  Python's whitespace characters are U+0009 to U+000D, U+001C to U+0020, U+0085 and U+00A0.
\<close>

definition py_isspace :: "char \<Rightarrow> bool" where
  "py_isspace c = ((of_char c :: nat) \<in> {9, 10, 11, 12, 13, 28, 29, 30, 31, 32, 133, 160})"

definition py_strip :: "string \<Rightarrow> string" where
  "py_strip s = rev (dropWhile py_isspace (rev (dropWhile py_isspace s)))"

text \<open>
  \<^verbatim>\<open>s.split(sep)\<close> for a non-empty separator: the text is cut at the leftmost
  occurrences of \<open>sep\<close>, which do not overlap; the result has at least one field.
  The second argument is the field read so far. (Python rejects an empty separator; the
  program only ever splits at \<open>field_sep\<close>.)
\<close>

fun py_split :: "string \<Rightarrow> string \<Rightarrow> string \<Rightarrow> string list" where
  "py_split sep field [] = [field]"
| "py_split sep field (c # cs) =
     (if sep \<noteq> [] \<and> take (length sep) (c # cs) = sep
      then field # py_split sep [] (drop (length sep - 1) cs)
      else py_split sep (field @ [c]) cs)"

text \<open>The delimiter \<^verbatim>\<open>'\t|\t'\<close>.\<close>

definition field_sep :: string where
  "field_sep = [CHR 0x09, CHR ''|'', CHR 0x09]"

text \<open>\<^verbatim>\<open>line.strip().split('\t|\t')\<close>.\<close>

definition split_fields :: "string \<Rightarrow> string list" where
  "split_fields line = py_split field_sep [] (py_strip line)"

text \<open>
  \<^verbatim>\<open>int(s)\<close> on text. The whitespace that \<^verbatim>\<open>int\<close> ignores around the number is
  narrower than that of \<^verbatim>\<open>strip\<close>: below 256 it is U+0009 to U+000D, U+0020, U+0085 and
  U+00A0, and not U+001C to U+001F. Then comes an optional sign, then decimal digits, where
  single underscores may stand between two digits. Anything else raises
  \<^verbatim>\<open>ValueError\<close>, here \<open>None\<close>.

  The interpreter also refuses a text with too many digits. Its limit is a setting of the
  interpreter (\<^verbatim>\<open>sys.get_int_max_str_digits()\<close>, 4300 unless changed, 0 for no limit and
  for interpreters that have none), so it is the parameter \<open>max_str_digits\<close>. The digits
  are counted with leading zeros and without sign, underscores and whitespace, and a
  text of at most 640 digits is never refused.
\<close>

definition py_int_isspace :: "char \<Rightarrow> bool" where
  "py_int_isspace c = ((of_char c :: nat) \<in> {9, 10, 11, 12, 13, 32, 133, 160})"

definition py_isdigit :: "char \<Rightarrow> bool" where
  "py_isdigit c = (48 \<le> (of_char c :: nat) \<and> (of_char c :: nat) \<le> 57)"

fun py_digits :: "nat \<Rightarrow> string \<Rightarrow> nat option" where
  "py_digits acc [] = Some acc"
| "py_digits acc (c # cs) =
     (if py_isdigit c then py_digits (10 * acc + (of_char c - 48)) cs
      else if c = CHR ''_'' \<and> cs \<noteq> [] \<and> py_isdigit (hd cs) then py_digits acc cs
      else None)"

definition too_many_digits :: "nat \<Rightarrow> string \<Rightarrow> bool" where
  "too_many_digits max_str_digits s =
     (let digits = length (filter py_isdigit s)
      in 640 < digits \<and> 0 < max_str_digits \<and> max_str_digits < digits)"

definition py_unsigned :: "nat \<Rightarrow> string \<Rightarrow> nat option" where
  "py_unsigned max_str_digits s =
     (if s \<noteq> [] \<and> py_isdigit (hd s) \<and> \<not> too_many_digits max_str_digits s
      then py_digits 0 s else None)"

definition py_int :: "nat \<Rightarrow> string \<Rightarrow> int option" where
  "py_int max_str_digits s =
     (case rev (dropWhile py_int_isspace (rev (dropWhile py_int_isspace s))) of
        [] \<Rightarrow> None
      | c # cs \<Rightarrow>
          if c = CHR ''-'' then map_option (\<lambda>n. - int n) (py_unsigned max_str_digits cs)
          else if c = CHR ''+'' then map_option int (py_unsigned max_str_digits cs)
          else map_option int (py_unsigned max_str_digits (c # cs)))"

text \<open>\<^verbatim>\<open>parts[i]\<close> for a literal index \<open>i\<close>: \<^verbatim>\<open>IndexError\<close> when out of range.\<close>

definition py_index :: "'a list \<Rightarrow> nat \<Rightarrow> error + 'a" where
  "py_index xs i = (if i < length xs then Inr (xs ! i) else Inl IndexError)"

text \<open>\<^verbatim>\<open>str(i)\<close> of an integer, as an f-string renders it.\<close>

fun str_nat :: "nat \<Rightarrow> string" where
  "str_nat n =
     (if n < 10 then [''0123456789'' ! n] else str_nat (n div 10) @ [''0123456789'' ! (n mod 10)])"

declare str_nat.simps [simp del]

definition str_int :: "int \<Rightarrow> string" where
  "str_int i = (if i < 0 then CHR ''-'' # str_nat (nat (- i)) else str_nat (nat i))"

text \<open>The single quote, the newline, and \<^verbatim>\<open>s.replace("'", "''")\<close>.\<close>

definition sq :: char where
  "sq = CHR 0x27"

definition nl :: char where
  "nl = CHR 0x0A"

definition sql_escape :: "string \<Rightarrow> string" where
  "sql_escape s = concat (map (\<lambda>c. if c = sq then [sq, sq] else [c]) s)"

section \<open>Division loader\<close>

text \<open>
  The body of the loop of \<^verbatim>\<open>parse_division\<close> up to the dict update: the statements
  run in the source's order, so a first field that is no integer raises before a missing
  field does.
\<close>

definition parse_division_line :: "nat \<Rightarrow> string \<Rightarrow> error + int \<times> division" where
  "parse_division_line max_str_digits line =
     (let parts = split_fields line in
      case py_index parts 0 of Inl e \<Rightarrow> Inl e | Inr p0 \<Rightarrow>
     (case py_int max_str_digits p0 of None \<Rightarrow> Inl ValueError | Some division_id \<Rightarrow>
     (case py_index parts 1 of Inl e \<Rightarrow> Inl e | Inr p1 \<Rightarrow>
     (case py_index parts 2 of Inl e \<Rightarrow> Inl e | Inr p2 \<Rightarrow>
     (case py_index parts 3 of Inl e \<Rightarrow> Inl e | Inr p3 \<Rightarrow>
        Inr (division_id, (py_strip p1, py_strip p2, py_strip p3)))))))"

fun parse_division_loop :: "nat \<Rightarrow> string list \<Rightarrow> divisions \<Rightarrow> error + divisions" where
  "parse_division_loop max_str_digits [] divisions = Inr divisions"
| "parse_division_loop max_str_digits (line # lines) divisions =
     (case parse_division_line max_str_digits line of
        Inl e \<Rightarrow> Inl e
      | Inr (division_id, fields) \<Rightarrow>
          parse_division_loop max_str_digits lines (AList.update division_id fields divisions))"

definition parse_division :: "nat \<Rightarrow> string list \<Rightarrow> error + divisions" where
  "parse_division max_str_digits lines = parse_division_loop max_str_digits lines []"

section \<open>Name loader\<close>

text \<open>The three assignments of the loop of \<^verbatim>\<open>parse_names\<close>: the record is
  (\<open>tax_id\<close>, \<open>name_txt\<close>, \<open>name_class\<close>).\<close>

definition parse_name_line :: "nat \<Rightarrow> string \<Rightarrow> error + int \<times> string \<times> string" where
  "parse_name_line max_str_digits line =
     (let parts = split_fields line in
      case py_index parts 0 of Inl e \<Rightarrow> Inl e | Inr p0 \<Rightarrow>
     (case py_int max_str_digits p0 of None \<Rightarrow> Inl ValueError | Some tax_id \<Rightarrow>
     (case py_index parts 1 of Inl e \<Rightarrow> Inl e | Inr p1 \<Rightarrow>
     (case py_index parts 3 of Inl e \<Rightarrow> Inl e | Inr p3 \<Rightarrow>
        Inr (tax_id, py_strip p1, py_strip p3)))))"

fun parse_names_loop :: "nat \<Rightarrow> string list \<Rightarrow> int set \<Rightarrow> names \<Rightarrow> error + names" where
  "parse_names_loop max_str_digits [] taxid_filter names = Inr names"
| "parse_names_loop max_str_digits (line # lines) taxid_filter names =
     (case parse_name_line max_str_digits line of
        Inl e \<Rightarrow> Inl e
      | Inr (tax_id, name_txt, name_class) \<Rightarrow>
          parse_names_loop max_str_digits lines taxid_filter
            (if tax_id \<in> taxid_filter \<and> name_class = ''scientific name''
             then AList.update tax_id name_txt names else names))"

definition parse_names :: "nat \<Rightarrow> string list \<Rightarrow> int set \<Rightarrow> error + names" where
  "parse_names max_str_digits lines taxid_filter =
     parse_names_loop max_str_digits lines taxid_filter []"

section \<open>Subtree selector\<close>

text \<open>\<^verbatim>\<open>children_map.get(current, [])\<close>, and the read of \<^verbatim>\<open>children_map[parent_id]\<close>
  on a \<^verbatim>\<open>defaultdict(list)\<close>: the stored list, or the empty list for a missing key.\<close>

definition children_get :: "children_map \<Rightarrow> int \<Rightarrow> int list" where
  "children_get children_map k = (case map_of children_map k of None \<Rightarrow> [] | Some cs \<Rightarrow> cs)"

text \<open>One iteration of \<^verbatim>\<open>for tax_id, (parent_id, _, _) in nodes.items():
  children_map[parent_id].append(tax_id)\<close>.\<close>

definition add_child :: "int \<times> node \<Rightarrow> children_map \<Rightarrow> children_map" where
  "add_child = (\<lambda>(tax_id, (parent_id, _, _)) children_map.
     AList.update parent_id (children_get children_map parent_id @ [tax_id]) children_map)"

definition build_children_map :: "nodes \<Rightarrow> children_map" where
  "build_children_map nodes = fold add_child nodes []"

text \<open>The inner loop \<^verbatim>\<open>for child in ...: if child not in taxids: queue.append(child)\<close>.\<close>

definition enqueue_unvisited :: "int set \<Rightarrow> int list \<Rightarrow> int list \<Rightarrow> int list" where
  "enqueue_unvisited taxids children queue =
     fold (\<lambda>child q. if child \<notin> taxids then q @ [child] else q) children queue"

text \<open>
  The body of \<^verbatim>\<open>while queue:\<close> on the state (queue, taxids): \<^verbatim>\<open>popleft\<close>, add the
  id to \<^verbatim>\<open>taxids\<close>, enqueue its children that are not in \<^verbatim>\<open>taxids\<close>. The body only
  runs on a non-empty queue; on the empty one the state is left as it is.
\<close>

definition bfs_body :: "children_map \<Rightarrow> int list \<times> int set \<Rightarrow> int list \<times> int set" where
  "bfs_body children_map = (\<lambda>(queue, taxids).
     case queue of
       [] \<Rightarrow> (queue, taxids)
     | current # rest \<Rightarrow>
         (let taxids' = insert current taxids
          in (enqueue_unvisited taxids' (children_get children_map current) rest, taxids')))"

text \<open>The \<^verbatim>\<open>while\<close> loop; \<open>None\<close> stands for a loop that never ends.\<close>

partial_function (option) bfs_loop :: "children_map \<Rightarrow> int list \<times> int set \<Rightarrow> int set option" where
  "bfs_loop children_map s =
     (if fst s = [] then Some (snd s) else bfs_loop children_map (bfs_body children_map s))"

definition get_descendants :: "nodes \<Rightarrow> int \<Rightarrow> int set option" where
  "get_descendants nodes root = bfs_loop (build_children_map nodes) ([root], {})"

text \<open>
  The state of the loop of \<open>get_descendants\<close> before iteration \<open>n\<close> (counted from 0).
  While its queue is not empty, iteration \<open>n\<close> dequeues and visits the head of that queue.
\<close>

definition bfs_state :: "nodes \<Rightarrow> int \<Rightarrow> nat \<Rightarrow> int list \<times> int set" where
  "bfs_state nodes root n = (bfs_body (build_children_map nodes) ^^ n) ([root], {})"

subsection \<open>A depth-first traversal of the same index\<close>

text \<open>
  The program has no depth-first traversal; its specification compares the selector with
  one. This is that reference, written from the specification's words: the loop of
  \<open>get_descendants\<close> with a stack in place of the queue (the top is the head of the list),
  on the same parent-to-children index.
\<close>

definition dfs_body :: "children_map \<Rightarrow> int list \<times> int set \<Rightarrow> int list \<times> int set" where
  "dfs_body children_map = (\<lambda>(stack, visited).
     case stack of
       [] \<Rightarrow> (stack, visited)
     | current # rest \<Rightarrow>
         (let visited' = insert current visited
          in (filter (\<lambda>child. child \<notin> visited') (children_get children_map current) @ rest,
              visited')))"

partial_function (option) dfs_loop :: "children_map \<Rightarrow> int list \<times> int set \<Rightarrow> int set option" where
  "dfs_loop children_map s =
     (if fst s = [] then Some (snd s) else dfs_loop children_map (dfs_body children_map s))"

definition dfs_descendants :: "nodes \<Rightarrow> int \<Rightarrow> int set option" where
  "dfs_descendants nodes root = dfs_loop (build_children_map nodes) ([root], {})"

section \<open>SQL renderer\<close>

text \<open>
  The output file is modelled as the list of the strings passed to \<^verbatim>\<open>f.write\<close>, in
  order; the file's content is their concatenation. A failed lookup \<^verbatim>\<open>nodes[tax_id]\<close>
  raises \<^verbatim>\<open>KeyError\<close> and ends the run.
\<close>

definition division_schema :: "string list" where
  "division_schema =
     [''CREATE TABLE division ('' @ [nl],
      ''  division_id INTEGER PRIMARY KEY,'' @ [nl],
      ''  division_code TEXT,'' @ [nl],
      ''  division_name TEXT,'' @ [nl],
      ''  comments TEXT'' @ [nl],
      '');'' @ [nl, nl]]"

definition taxon_schema :: "string list" where
  "taxon_schema =
     [''CREATE TABLE taxon ('' @ [nl],
      ''  tax_id INTEGER PRIMARY KEY,'' @ [nl],
      ''  parent_tax_id INTEGER,'' @ [nl],
      ''  rank TEXT,'' @ [nl],
      ''  division_id INTEGER'' @ [nl],
      '');'' @ [nl, nl]]"

definition taxon_name_schema :: "string list" where
  "taxon_name_schema =
     [''CREATE TABLE taxon_name ('' @ [nl],
      ''  tax_id INTEGER,'' @ [nl],
      ''  name TEXT,'' @ [nl],
      ''  UNIQUE(tax_id, name)'' @ [nl],
      '');'' @ [nl, nl]]"

text \<open>The three f-strings. The division row interpolates \<open>code\<close>, \<open>name\<close> and \<open>comment\<close>
  as they are; the other two receive text that the caller has escaped.\<close>

definition division_insert :: "int \<times> division \<Rightarrow> string" where
  "division_insert = (\<lambda>(div_id, (code, name, comment)).
     ''INSERT INTO division VALUES ('' @ str_int div_id @ '', '' @ [sq] @ code @ [sq] @ '', ''
       @ [sq] @ name @ [sq] @ '', '' @ [sq] @ comment @ [sq] @ '');'' @ [nl])"

definition taxon_insert :: "int \<Rightarrow> int \<Rightarrow> string \<Rightarrow> int \<Rightarrow> string" where
  "taxon_insert tax_id parent_id rank_sql division_id =
     ''INSERT INTO taxon VALUES ('' @ str_int tax_id @ '', '' @ str_int parent_id @ '', ''
       @ [sq] @ rank_sql @ [sq] @ '', '' @ str_int division_id @ '');'' @ [nl]"

definition taxon_name_insert :: "int \<Rightarrow> string \<Rightarrow> string" where
  "taxon_name_insert tax_id name_sql =
     ''INSERT INTO taxon_name VALUES ('' @ str_int tax_id @ '', '' @ [sq] @ name_sql @ [sq]
       @ '');'' @ [nl]"

text \<open>The three \<^verbatim>\<open>for\<close> loops of the renderer, each appending to the output so far.\<close>

definition write_divisions :: "divisions \<Rightarrow> string list \<Rightarrow> string list" where
  "write_divisions divisions out = fold (\<lambda>row out. out @ [division_insert row]) divisions out"

fun write_taxa :: "nodes \<Rightarrow> int list \<Rightarrow> string list \<Rightarrow> error + string list" where
  "write_taxa nodes [] out = Inr out"
| "write_taxa nodes (tax_id # ids) out =
     (case map_of nodes tax_id of
        None \<Rightarrow> Inl (KeyError tax_id)
      | Some (parent_id, rank, division_id) \<Rightarrow>
          (let rank_sql = sql_escape rank
           in write_taxa nodes ids (out @ [taxon_insert tax_id parent_id rank_sql division_id])))"

definition write_names :: "names \<Rightarrow> string list \<Rightarrow> string list" where
  "write_names names out =
     fold (\<lambda>(tax_id, name) out.
             let name_sql = sql_escape name in out @ [taxon_name_insert tax_id name_sql])
       names out"

text \<open>\<^verbatim>\<open>sorted(taxids)\<close> is \<^const>\<open>sorted_list_of_set\<close>; a Python set is finite.\<close>

definition export_sql_with_division ::
  "nodes \<Rightarrow> names \<Rightarrow> int set \<Rightarrow> divisions \<Rightarrow> error + string list" where
  "export_sql_with_division nodes names taxids divisions =
     (let out = division_schema;
          out = write_divisions divisions out;
          out = out @ [[nl]];
          out = out @ taxon_schema;
          out = out @ taxon_name_schema
      in case write_taxa nodes (sorted_list_of_set taxids) out of
           Inl e \<Rightarrow> Inl e
         | Inr out \<Rightarrow> Inr (write_names names (out @ [[nl]])))"

section \<open>Notions used in the proofs\<close>

text \<open>Every id that occurs in some list of children.\<close>

definition all_children :: "children_map \<Rightarrow> int set" where
  "all_children cm = (\<Union>cs \<in> snd ` set cm. set cs)"

text \<open>
  The quantity that decreases with every iteration of a worklist loop, in the
  lexicographic order: the number of ids not yet visited, then the number of
  entries of the worklist that are visited already.
\<close>

definition worklist_measure :: "children_map \<Rightarrow> int list \<times> int set \<Rightarrow> nat \<times> nat" where
  "worklist_measure cm = (\<lambda>(q, V).
     (card ((all_children cm \<union> set q) - V), length (filter (\<lambda>x. x \<in> V) q)))"

definition worklist_rel ::
  "children_map \<Rightarrow> ((int list \<times> int set) \<times> (int list \<times> int set)) set" where
  "worklist_rel cm = inv_image (less_than <*lex*> less_than) (worklist_measure cm)"

text \<open>The parent-to-child edges of the index, and the ids reachable from a root along them.\<close>

definition child_rel :: "children_map \<Rightarrow> (int \<times> int) set" where
  "child_rel cm = {(p, c). c \<in> set (children_get cm p)}"

definition reachable :: "children_map \<Rightarrow> int \<Rightarrow> int set" where
  "reachable cm root = (child_rel cm)\<^sup>* `` {root}"

text \<open>The loop invariant that characterises the result as the reachable set.\<close>

definition reach_inv :: "children_map \<Rightarrow> int \<Rightarrow> int list \<times> int set \<Rightarrow> bool" where
  "reach_inv cm root = (\<lambda>(q, V).
     root \<in> set q \<union> V \<and> set q \<union> V \<subseteq> reachable cm root \<and>
     (\<forall>x \<in> V. set (children_get cm x) \<subseteq> set q \<union> V))"

text \<open>
  The loop invariant behind single visits: the queue has no duplicates and holds no
  visited id, and every queued id other than the initial root has a visited parent.
\<close>

definition visit_inv :: "nodes \<Rightarrow> int \<Rightarrow> int list \<times> int set \<Rightarrow> bool" where
  "visit_inv nodes root = (\<lambda>(q, V).
     distinct q \<and> set q \<inter> V = {} \<and>
     ((q = [root] \<and> V = {}) \<or> (\<forall>x \<in> set q. \<exists>n. (x, n) \<in> set nodes \<and> fst n \<in> V)))"

section \<open>Example inputs\<close>

text \<open>The tree of the specification's round-trip scenario, and small dump files.\<close>

abbreviation (input) example_nodes :: nodes where
  "example_nodes \<equiv>
     [(1, (1, ''kingdom'', 4)), (2, (1, ''phylum'', 4)), (3, (1, ''phylum'', 4)),
      (4, (2, ''class'', 4)), (5, (99, ''genus'', 0))]"

abbreviation (input) example_name_lines :: "string list" where
  "example_name_lines \<equiv>
     [''7'' @ field_sep @ ''Alpha'' @ field_sep @ field_sep @ ''scientific name'' @ field_sep @ ''x'',
      ''7'' @ field_sep @ '' Beta '' @ field_sep @ field_sep @ ''scientific name'' @ field_sep @ ''x'',
      ''7'' @ field_sep @ ''Gamma'' @ field_sep @ field_sep @ ''synonym'' @ field_sep @ ''x'']"


section \<open>Evaluation rules\<close>

lemmas eval_fields =
  split_fields_def field_sep_def py_strip_def py_isspace_def py_index_def py_int_def py_int_isspace_def too_many_digits_def
  py_unsigned_def py_isdigit_def

lemmas eval_bfs =
  get_descendants_def bfs_state_def build_children_map_def add_child_def children_get_def
  bfs_body_def enqueue_unvisited_def

section \<open>The worklist loops end\<close>

lemma enqueue_unvisited_filter:
  "enqueue_unvisited V cs q = q @ filter (\<lambda>c. c \<notin> V) cs"
  unfolding enqueue_unvisited_def
  by (induction cs arbitrary: q) simp_all

lemma bfs_body_Cons:
  "bfs_body cm (x # rest, V) =
     (rest @ filter (\<lambda>c. c \<notin> insert x V) (children_get cm x), insert x V)"
  by (simp add: bfs_body_def enqueue_unvisited_filter Let_def)

lemma bfs_body_Nil: "bfs_body cm ([], V) = ([], V)"
  by (simp add: bfs_body_def)

lemma dfs_body_Cons:
  "dfs_body cm (x # rest, V) =
     (filter (\<lambda>c. c \<notin> insert x V) (children_get cm x) @ rest, insert x V)"
  by (simp add: dfs_body_def Let_def)

lemma finite_all_children: "finite (all_children cm)"
  by (simp add: all_children_def)

lemma children_get_subset: "set (children_get cm x) \<subseteq> all_children cm"
proof (cases "map_of cm x")
  case None
  then show ?thesis by (simp add: children_get_def)
next
  case (Some cs)
  then have "(x, cs) \<in> set cm" by (rule map_of_SomeD)
  then have "set cs \<subseteq> all_children cm" by (force simp: all_children_def)
  with Some show ?thesis by (simp add: children_get_def)
qed

lemma wf_worklist_rel: "wf (worklist_rel cm)"
  unfolding worklist_rel_def by (intro wf_inv_image wf_lex_prod wf_less_than)

lemma worklist_step_decreases:
  assumes new: "set new \<subseteq> set (children_get cm x) - insert x V"
    and q': "set q' = set rest \<union> set new"
    and cnt: "filter (\<lambda>y. y \<in> insert x V) q' = filter (\<lambda>y. y \<in> insert x V) rest"
  shows "((q', insert x V), (x # rest, V)) \<in> worklist_rel cm"
proof (cases "x \<in> V")
  case True
  then have V: "insert x V = V" by auto
  have "set q' \<subseteq> all_children cm \<union> set rest"
    using new q' children_get_subset[of cm x] by auto
  then have "(all_children cm \<union> set q') - V \<subseteq> (all_children cm \<union> set (x # rest)) - V"
    by auto
  then have "card ((all_children cm \<union> set q') - V) \<le> card ((all_children cm \<union> set (x # rest)) - V)"
    by (intro card_mono) (simp_all add: finite_all_children)
  moreover have "length (filter (\<lambda>y. y \<in> V) q') < length (filter (\<lambda>y. y \<in> V) (x # rest))"
    using cnt True by (simp add: V)
  ultimately show ?thesis
    by (auto simp: worklist_rel_def worklist_measure_def V)
next
  case False
  have "set q' \<subseteq> all_children cm \<union> set rest"
    using new q' children_get_subset[of cm x] by auto
  then have "(all_children cm \<union> set q') - insert x V \<subset> (all_children cm \<union> set (x # rest)) - V"
    using False by auto
  then have "card ((all_children cm \<union> set q') - insert x V) < card ((all_children cm \<union> set (x # rest)) - V)"
    by (intro psubset_card_mono) (simp_all add: finite_all_children)
  then show ?thesis
    by (simp add: worklist_rel_def worklist_measure_def)
qed

lemma bfs_body_decreases:
  assumes "fst s \<noteq> []"
  shows "(bfs_body cm s, s) \<in> worklist_rel cm"
proof -
  obtain x rest V where s: "s = (x # rest, V)"
    using assms by (cases s; cases "fst s") auto
  show ?thesis
    unfolding s bfs_body_Cons
    by (rule worklist_step_decreases[where new = "filter (\<lambda>c. c \<notin> insert x V) (children_get cm x)"])
       (auto simp: filter_empty_conv)
qed

lemma dfs_body_decreases:
  assumes "fst s \<noteq> []"
  shows "(dfs_body cm s, s) \<in> worklist_rel cm"
proof -
  obtain x rest V where s: "s = (x # rest, V)"
    using assms by (cases s; cases "fst s") auto
  show ?thesis
    unfolding s dfs_body_Cons
    by (rule worklist_step_decreases[where new = "filter (\<lambda>c. c \<notin> insert x V) (children_get cm x)"])
       (auto simp: filter_empty_conv)
qed

text \<open>
  Total correctness of the two loops: from a state that satisfies an invariant of the
  body, the loop returns, and the invariant holds of the final state.
\<close>

lemma bfs_loop_rule:
  assumes "P s"
    and step: "\<And>s. P s \<Longrightarrow> fst s \<noteq> [] \<Longrightarrow> P (bfs_body cm s)"
  shows "\<exists>S. bfs_loop cm s = Some S \<and> P ([], S)"
  using assms(1)
proof (induction s rule: wf_induct_rule[OF wf_worklist_rel[of cm]])
  case (1 s)
  show ?case
  proof (cases "fst s = []")
    case True
    then have "s = ([], snd s)" by (cases s) simp
    with 1(2) True show ?thesis
      by (subst bfs_loop.simps) (auto simp: True)
  next
    case False
    have "\<exists>S. bfs_loop cm (bfs_body cm s) = Some S \<and> P ([], S)"
      by (rule 1(1)[OF bfs_body_decreases[OF False] step[OF 1(2) False]])
    then show ?thesis
      by (subst bfs_loop.simps) (simp add: False)
  qed
qed

lemma dfs_loop_rule:
  assumes "P s"
    and step: "\<And>s. P s \<Longrightarrow> fst s \<noteq> [] \<Longrightarrow> P (dfs_body cm s)"
  shows "\<exists>S. dfs_loop cm s = Some S \<and> P ([], S)"
  using assms(1)
proof (induction s rule: wf_induct_rule[OF wf_worklist_rel[of cm]])
  case (1 s)
  show ?case
  proof (cases "fst s = []")
    case True
    then have "s = ([], snd s)" by (cases s) simp
    with 1(2) True show ?thesis
      by (subst dfs_loop.simps) (auto simp: True)
  next
    case False
    have "\<exists>S. dfs_loop cm (dfs_body cm s) = Some S \<and> P ([], S)"
      by (rule 1(1)[OF dfs_body_decreases[OF False] step[OF 1(2) False]])
    then show ?thesis
      by (subst dfs_loop.simps) (simp add: False)
  qed
qed

lemma bfs_loop_iterates:
  "\<exists>S n. bfs_loop cm s0 = Some S \<and> (bfs_body cm ^^ n) s0 = ([], S)"
proof -
  have "\<exists>S. bfs_loop cm s0 = Some S \<and> (\<exists>n. ([], S) = (bfs_body cm ^^ n) s0)"
  proof (rule bfs_loop_rule[where P = "\<lambda>s. \<exists>n. s = (bfs_body cm ^^ n) s0"])
    show "\<exists>n. s0 = (bfs_body cm ^^ n) s0" by (rule exI[of _ 0]) simp
  next
    fix s assume "\<exists>n. s = (bfs_body cm ^^ n) s0"
    then obtain n where "s = (bfs_body cm ^^ n) s0" ..
    then have "bfs_body cm s = (bfs_body cm ^^ Suc n) s0" by simp
    then show "\<exists>n. bfs_body cm s = (bfs_body cm ^^ n) s0" ..
  qed
  then show ?thesis by metis
qed

section \<open>The parent-to-children index\<close>

lemma children_get_update:
  "children_get (AList.update k v cm) p = (if p = k then v else children_get cm p)"
  by (simp add: children_get_def update_conv')

lemma children_get_add_child:
  "children_get (add_child (t, par, r, d) cm) p =
     (if p = par then children_get cm par @ [t] else children_get cm p)"
  by (simp add: add_child_def children_get_update)

lemma children_get_fold_add_child:
  "children_get (fold add_child nodes cm) p =
     children_get cm p @ map fst (filter (\<lambda>e. fst (snd e) = p) nodes)"
proof (induction nodes arbitrary: cm)
  case Nil
  show ?case by simp
next
  case (Cons e nodes)
  obtain t par r d where e: "e = (t, par, r, d)" by (cases e) auto
  have "children_get (fold add_child (e # nodes) cm) p =
        children_get (add_child e cm) p @ map fst (filter (\<lambda>e. fst (snd e) = p) nodes)"
    by (simp add: Cons.IH)
  also have "\<dots> = children_get cm p @ map fst (filter (\<lambda>e. fst (snd e) = p) (e # nodes))"
    by (simp add: e children_get_add_child)
  finally show ?case .
qed

lemma children_get_build:
  "children_get (build_children_map nodes) p = map fst (filter (\<lambda>e. fst (snd e) = p) nodes)"
  unfolding build_children_map_def children_get_fold_add_child
  by (simp add: children_get_def)

lemma child_iff:
  "c \<in> set (children_get (build_children_map nodes) p) \<longleftrightarrow> (\<exists>n. (c, n) \<in> set nodes \<and> fst n = p)"
  by (force simp: children_get_build)

lemma children_distinct:
  "distinct (map fst nodes) \<Longrightarrow> distinct (children_get (build_children_map nodes) p)"
  by (simp add: children_get_build distinct_map_filter)

section \<open>The selected set is the reachable set\<close>

lemma reach_inv_init: "reach_inv cm root ([root], {})"
  by (simp add: reach_inv_def reachable_def)

lemma reachable_child:
  "x \<in> reachable cm root \<Longrightarrow> c \<in> set (children_get cm x) \<Longrightarrow> c \<in> reachable cm root"
  unfolding reachable_def child_rel_def
  by (auto intro: rtrancl_into_rtrancl)

lemma reach_inv_step:
  assumes inv: "reach_inv cm root (x # rest, V)"
    and q': "set q' = set rest \<union> (set (children_get cm x) - insert x V)"
  shows "reach_inv cm root (q', insert x V)"
proof -
  have x: "x \<in> reachable cm root" using inv by (auto simp: reach_inv_def)
  have up: "set rest \<subseteq> set q'" "set (children_get cm x) \<subseteq> set q' \<union> insert x V"
    and down: "set q' \<subseteq> set rest \<union> set (children_get cm x)"
    unfolding q' by auto
  have "root \<in> set q' \<union> insert x V"
    using inv up(1) by (auto simp: reach_inv_def)
  moreover have "set q' \<union> insert x V \<subseteq> reachable cm root"
  proof -
    have "set rest \<union> V \<subseteq> reachable cm root" using inv by (auto simp: reach_inv_def)
    moreover have "set (children_get cm x) \<subseteq> reachable cm root"
      using reachable_child[OF x] by auto
    ultimately show ?thesis using down x by blast
  qed
  moreover have "\<forall>y \<in> insert x V. set (children_get cm y) \<subseteq> set q' \<union> insert x V"
  proof
    fix y assume y: "y \<in> insert x V"
    show "set (children_get cm y) \<subseteq> set q' \<union> insert x V"
    proof (cases "y \<in> V")
      case True
      then have "set (children_get cm y) \<subseteq> set (x # rest) \<union> V"
        using inv by (auto simp: reach_inv_def)
      then show ?thesis using up(1) by auto
    next
      case False
      then have "y = x" using y by simp
      then show ?thesis using up(2) by simp
    qed
  qed
  ultimately show ?thesis by (auto simp: reach_inv_def)
qed

lemma reach_inv_final:
  assumes "reach_inv cm root ([], S)"
  shows "S = reachable cm root"
proof
  show "S \<subseteq> reachable cm root" using assms by (simp add: reach_inv_def)
  have root: "root \<in> S" and closed: "\<And>x c. x \<in> S \<Longrightarrow> c \<in> set (children_get cm x) \<Longrightarrow> c \<in> S"
    using assms by (auto simp: reach_inv_def)
  have "y \<in> S" if "(root, y) \<in> (child_rel cm)\<^sup>*" for y
    using that
  proof (induction rule: rtrancl_induct)
    case base
    show ?case by (rule root)
  next
    case (step y z)
    then show ?case using closed by (auto simp: child_rel_def)
  qed
  then show "reachable cm root \<subseteq> S" by (auto simp: reachable_def)
qed

lemma bfs_loop_reachable: "bfs_loop cm ([root], {}) = Some (reachable cm root)"
proof -
  have "\<exists>S. bfs_loop cm ([root], {}) = Some S \<and> reach_inv cm root ([], S)"
  proof (rule bfs_loop_rule[where P = "reach_inv cm root"])
    show "reach_inv cm root ([root], {})" by (rule reach_inv_init)
  next
    fix s assume inv: "reach_inv cm root s" and ne: "fst s \<noteq> []"
    obtain x rest V where s: "s = (x # rest, V)"
      using ne by (cases s; cases "fst s") auto
    show "reach_inv cm root (bfs_body cm s)"
      unfolding s bfs_body_Cons
      by (rule reach_inv_step[OF inv[unfolded s]]) auto
  qed
  then show ?thesis using reach_inv_final by blast
qed

lemma dfs_loop_reachable: "dfs_loop cm ([root], {}) = Some (reachable cm root)"
proof -
  have "\<exists>S. dfs_loop cm ([root], {}) = Some S \<and> reach_inv cm root ([], S)"
  proof (rule dfs_loop_rule[where P = "reach_inv cm root"])
    show "reach_inv cm root ([root], {})" by (rule reach_inv_init)
  next
    fix s assume inv: "reach_inv cm root s" and ne: "fst s \<noteq> []"
    obtain x rest V where s: "s = (x # rest, V)"
      using ne by (cases s; cases "fst s") auto
    show "reach_inv cm root (dfs_body cm s)"
      unfolding s dfs_body_Cons
      by (rule reach_inv_step[OF inv[unfolded s]]) auto
  qed
  then show ?thesis using reach_inv_final by blast
qed

lemma reachable_keys:
  "reachable (build_children_map nodes) root \<subseteq> insert root (fst ` set nodes)"
proof
  fix y assume "y \<in> reachable (build_children_map nodes) root"
  then have "(root, y) \<in> (child_rel (build_children_map nodes))\<^sup>*"
    by (simp add: reachable_def)
  then show "y \<in> insert root (fst ` set nodes)"
  proof (cases rule: rtranclE)
    case base
    then show ?thesis by simp
  next
    case (step z)
    then have "y \<in> set (children_get (build_children_map nodes) z)"
      by (simp add: child_rel_def)
    then show ?thesis by (force simp: child_iff)
  qed
qed

section \<open>Claims about the subtree selector\<close>

text \<open>
  Claim C2. For every node mapping and every root id, the set returned by
  \<open>get_descendants\<close> contains the root id.
\<close>

theorem get_descendants_contains_root:
  "\<exists>S. get_descendants nodes root = Some S \<and> root \<in> S"
  by (simp add: get_descendants_def bfs_loop_reachable reachable_def)

text \<open>
  Claim C9. \<open>get_descendants\<close> terminates for every node mapping and every root id,
  cycles among the parent references included: the loop returns a set, and it does so
  after a finite number \<open>n\<close> of iterations, when the queue is empty.
\<close>

theorem get_descendants_terminates:
  "\<exists>S n. get_descendants nodes root = Some S \<and> bfs_state nodes root n = ([], S)"
  unfolding get_descendants_def bfs_state_def by (rule bfs_loop_iterates)

text \<open>
  Claim C4. For every node mapping and root id, the breadth-first selector and the
  depth-first traversal of the same parent-to-children index return the same set.
\<close>

theorem bfs_dfs_same_set:
  "\<exists>S. get_descendants nodes root = Some S \<and> dfs_descendants nodes root = Some S"
  by (simp add: get_descendants_def dfs_descendants_def bfs_loop_reachable dfs_loop_reachable)

text \<open>
  Claim C5. For the mapping 1 -> parent 1, 2 -> parent 1, 3 -> parent 1, 4 -> parent 2,
  5 -> parent 99, with any ranks and division ids, \<open>get_descendants\<close> with root 1 returns
  exactly {1, 2, 3, 4}.
\<close>

theorem get_descendants_example:
  "get_descendants [(1, (1, r1, d1)), (2, (1, r2, d2)), (3, (1, r3, d3)), (4, (2, r4, d4)),
                    (5, (99, r5, d5))] 1 = Some {1, 2, 3, 4}"
  by (simp add: get_descendants_def build_children_map_def add_child_def children_get_def
      bfs_loop.simps bfs_body_def enqueue_unvisited_def insert_commute)

subsection \<open>Single visits\<close>

lemma visit_inv_init: "visit_inv nodes root ([root], {})"
  by (simp add: visit_inv_def)

lemma visit_inv_step:
  assumes keys: "distinct (map fst nodes)"
    and inv: "visit_inv nodes root (x # rest, V)"
  shows "visit_inv nodes root (bfs_body (build_children_map nodes) (x # rest, V))"
proof -
  let ?cm = "build_children_map nodes"
  let ?new = "filter (\<lambda>c. c \<notin> insert x V) (children_get ?cm x)"
  have dq: "distinct (x # rest)" and disj: "set (x # rest) \<inter> V = {}"
    and par: "(x # rest = [root] \<and> V = {}) \<or> (\<forall>y \<in> set (x # rest). \<exists>n. (y, n) \<in> set nodes \<and> fst n \<in> V)"
    using inv by (auto simp: visit_inv_def)
  have xV: "x \<notin> V" using disj by auto
  have new_par: "\<exists>n. (c, n) \<in> set nodes \<and> fst n = x" if "c \<in> set ?new" for c
    using that by (auto simp: child_iff)
  have rest_new: "set rest \<inter> set ?new = {}"
  proof (rule ccontr)
    assume "set rest \<inter> set ?new \<noteq> {}"
    then obtain c where c: "c \<in> set rest" "c \<in> set ?new" by auto
    from new_par[OF c(2)] obtain n where n: "(c, n) \<in> set nodes" "fst n = x" by auto
    from c(1) have "rest \<noteq> []" by auto
    with par c(1) obtain n' where n': "(c, n') \<in> set nodes" "fst n' \<in> V" by auto
    have "n = n'" using keys n(1) n'(1) by (rule eq_key_imp_eq_value)
    with n(2) n'(2) xV show False by simp
  qed
  have "distinct (rest @ ?new)"
    using dq rest_new children_distinct[OF keys, of x] by simp
  moreover have "set (rest @ ?new) \<inter> insert x V = {}"
    using dq disj by auto
  moreover have "\<forall>y \<in> set (rest @ ?new). \<exists>n. (y, n) \<in> set nodes \<and> fst n \<in> insert x V"
  proof
    fix y assume "y \<in> set (rest @ ?new)"
    then consider "y \<in> set rest" | "y \<in> set ?new" by auto
    then show "\<exists>n. (y, n) \<in> set nodes \<and> fst n \<in> insert x V"
    proof cases
      case 1
      then have "rest \<noteq> []" by auto
      with par have "\<forall>y \<in> set (x # rest). \<exists>n. (y, n) \<in> set nodes \<and> fst n \<in> V" by simp
      with 1 obtain n where "(y, n) \<in> set nodes" "fst n \<in> V" by auto
      then show ?thesis by (intro exI[of _ n]) simp
    next
      case 2
      from new_par[OF 2] obtain n where "(y, n) \<in> set nodes" "fst n = x" by auto
      then show ?thesis by (intro exI[of _ n]) simp
    qed
  qed
  ultimately show ?thesis
    unfolding bfs_body_Cons by (simp add: visit_inv_def)
qed

lemma visit_inv_bfs_state:
  assumes keys: "distinct (map fst nodes)"
  shows "visit_inv nodes root (bfs_state nodes root n)"
proof (induction n)
  case 0
  show ?case by (simp add: bfs_state_def visit_inv_init)
next
  case (Suc n)
  obtain q V where s: "bfs_state nodes root n = (q, V)" by (cases "bfs_state nodes root n")
  have next_state: "bfs_state nodes root (Suc n) = bfs_body (build_children_map nodes) (q, V)"
    using s by (simp add: bfs_state_def)
  show ?case
  proof (cases q)
    case Nil
    with Suc s next_state show ?thesis by (simp add: bfs_body_Nil)
  next
    case (Cons x rest)
    with Suc s next_state visit_inv_step[OF keys] show ?thesis by simp
  qed
qed

lemma bfs_body_snd_mono: "snd s \<subseteq> snd (bfs_body cm s)"
  by (cases s; cases "fst s") (auto simp: bfs_body_Nil bfs_body_Cons)

lemma bfs_body_hd_visited: "fst s \<noteq> [] \<Longrightarrow> hd (fst s) \<in> snd (bfs_body cm s)"
  by (cases s; cases "fst s") (auto simp: bfs_body_Cons)

lemma bfs_state_Suc:
  "bfs_state nodes root (Suc n) = bfs_body (build_children_map nodes) (bfs_state nodes root n)"
  by (simp add: bfs_state_def)

lemma bfs_state_empty_stays:
  "fst (bfs_state nodes root i) = [] \<Longrightarrow> i \<le> j \<Longrightarrow> fst (bfs_state nodes root j) = []"
proof (induction j)
  case 0
  then show ?case by simp
next
  case (Suc j)
  show ?case
  proof (cases "i = Suc j")
    case True
    with Suc.prems show ?thesis by simp
  next
    case False
    with Suc have e: "fst (bfs_state nodes root j) = []" by simp
    then have "bfs_state nodes root j = ([], snd (bfs_state nodes root j))"
      by (cases "bfs_state nodes root j") simp
    then have "bfs_body (build_children_map nodes) (bfs_state nodes root j) = bfs_state nodes root j"
      by (metis bfs_body_Nil)
    with e show ?thesis by (simp add: bfs_state_Suc)
  qed
qed

lemma bfs_state_hd_visited:
  "i < j \<Longrightarrow> fst (bfs_state nodes root i) \<noteq> [] \<Longrightarrow>
   hd (fst (bfs_state nodes root i)) \<in> snd (bfs_state nodes root j)"
proof (induction j)
  case 0
  then show ?case by simp
next
  case (Suc j)
  show ?case
  proof (cases "i = j")
    case True
    with Suc.prems(2) show ?thesis
      by (simp add: bfs_state_Suc bfs_body_hd_visited)
  next
    case False
    with Suc have "hd (fst (bfs_state nodes root i)) \<in> snd (bfs_state nodes root j)" by simp
    then show ?thesis
      using bfs_body_snd_mono[of "bfs_state nodes root j"] by (auto simp: bfs_state_Suc)
  qed
qed

text \<open>
  Claim C3. For every node mapping (a dict, so its keys are distinct) and root id, the
  traversal dequeues each id at most once: the ids dequeued by two different iterations
  \<open>i < j\<close> of the running loop differ. No id is enqueued after it has been visited: in
  every state of the loop the queue holds no visited id.
\<close>

theorem get_descendants_visits_once:
  assumes keys: "distinct (map fst nodes)"
  shows "(i < j \<and> fst (bfs_state nodes root j) \<noteq> [] \<longrightarrow>
           hd (fst (bfs_state nodes root i)) \<noteq> hd (fst (bfs_state nodes root j))) \<and>
         set (fst (bfs_state nodes root n)) \<inter> snd (bfs_state nodes root n) = {}"
proof (intro conjI impI)
  assume a: "i < j \<and> fst (bfs_state nodes root j) \<noteq> []"
  then have ne_i: "fst (bfs_state nodes root i) \<noteq> []"
    using bfs_state_empty_stays[of nodes root i j] by auto
  have in_V: "hd (fst (bfs_state nodes root i)) \<in> snd (bfs_state nodes root j)"
    using a ne_i by (simp add: bfs_state_hd_visited)
  have "set (fst (bfs_state nodes root j)) \<inter> snd (bfs_state nodes root j) = {}"
    using visit_inv_bfs_state[OF keys, of root j]
    by (cases "bfs_state nodes root j") (simp add: visit_inv_def)
  moreover have "hd (fst (bfs_state nodes root j)) \<in> set (fst (bfs_state nodes root j))"
    using a by simp
  ultimately show "hd (fst (bfs_state nodes root i)) \<noteq> hd (fst (bfs_state nodes root j))"
    using in_V by auto
next
  show "set (fst (bfs_state nodes root n)) \<inter> snd (bfs_state nodes root n) = {}"
    using visit_inv_bfs_state[OF keys, of root n]
    by (cases "bfs_state nodes root n") (simp add: visit_inv_def)
qed

theorem get_descendants_visits_once_witness:
  "distinct (map fst example_nodes) \<and>
   (0::nat) < 2 \<and> fst (bfs_state example_nodes 1 2) \<noteq> [] \<and>
   hd (fst (bfs_state example_nodes 1 0)) \<noteq> hd (fst (bfs_state example_nodes 1 2)) \<and>
   set (fst (bfs_state example_nodes 1 1)) \<inter> snd (bfs_state example_nodes 1 1) = {}"
proof -
  have keys: "distinct (map fst example_nodes)" by simp
  have later: "(0::nat) < 2 \<and> fst (bfs_state example_nodes 1 2) \<noteq> []"
    by (simp add: eval_bfs numeral_2_eq_2)
  from get_descendants_visits_once[OF keys, of 0 2 1 1] keys later show ?thesis by blast
qed

section \<open>Claims about the loaders\<close>

subsection \<open>What \<open>int\<close> refuses\<close>

text \<open>
  An information separator next to the digits is whitespace for \<^verbatim>\<open>strip\<close> and not for
  \<^verbatim>\<open>int\<close>: such an id field is no integer, and the loaders raise \<^verbatim>\<open>ValueError\<close> on it.
  A text with more digits than the interpreter's limit is no integer either.
\<close>

lemma py_int_information_separator: "py_int lim (''5'' @ [CHR 0x1C]) = None"
  by (simp add: py_int_def py_int_isspace_def py_unsigned_def py_isdigit_def too_many_digits_def)

lemma parse_division_information_separator:
  "parse_division lim [''5'' @ [CHR 0x1C] @ field_sep @ ''A'' @ field_sep @ ''B'' @ field_sep @ ''C'']
     = Inl ValueError"
  by (simp add: parse_division_def parse_division_line_def eval_fields)

lemma parse_names_information_separator:
  "parse_names lim
     [''7'' @ [CHR 0x1F] @ field_sep @ ''Rosa'' @ field_sep @ field_sep @ ''scientific name'' @
      field_sep @ ''x''] {7}
     = Inl ValueError"
  by (simp add: parse_names_def parse_name_line_def eval_fields)

lemma py_int_digit_limit:
  assumes "640 < n" and "0 < lim" and "lim < n"
  shows "py_int lim (replicate n (CHR ''1'')) = None"
proof -
  have ns: "\<not> py_int_isspace (CHR ''1'')" by (simp add: py_int_isspace_def)
  have dg: "py_isdigit (CHR ''1'')" by (simp add: py_isdigit_def)
  obtain m where n: "n = Suc m" using assms(1) by (cases n) auto
  have strip: "rev (dropWhile py_int_isspace (rev (dropWhile py_int_isspace (replicate n (CHR ''1''))))) =
        CHR ''1'' # replicate m (CHR ''1'')"
    using ns by (simp add: dropWhile_replicate n del: replicate_Suc) (simp)
  have "too_many_digits lim (CHR ''1'' # replicate m (CHR ''1''))"
    using assms dg by (simp add: too_many_digits_def n)
  then have "py_unsigned lim (CHR ''1'' # replicate m (CHR ''1'')) = None"
    by (simp add: py_unsigned_def)
  then show ?thesis
    unfolding py_int_def strip by simp
qed

subsection \<open>The division loader\<close>

lemma dropWhile_hd_not: "dropWhile P xs \<noteq> [] \<Longrightarrow> \<not> P (hd (dropWhile P xs))"
  by (metis hd_dropWhile)

lemma py_strip_trimmed:
  "py_strip s = [] \<or> (\<not> py_isspace (hd (py_strip s)) \<and> \<not> py_isspace (last (py_strip s)))"
proof (cases "py_strip s = []")
  case True
  then show ?thesis by simp
next
  case False
  define u where "u = dropWhile py_isspace s"
  define w where "w = dropWhile py_isspace (rev u)"
  have s': "py_strip s = rev w" by (simp add: py_strip_def u_def w_def)
  with False have w: "w \<noteq> []" by simp
  then have ru: "rev u \<noteq> []" by (auto simp: w_def)
  then have u: "u \<noteq> []" by simp
  have "\<not> py_isspace (hd w)" using w unfolding w_def by (rule dropWhile_hd_not)
  then have l: "\<not> py_isspace (last (py_strip s))" using w by (simp add: s' last_rev)
  have "rev u = takeWhile py_isspace (rev u) @ w" by (simp add: w_def)
  then have "last (rev u) = last w" using w by (metis last_appendR)
  then have "last w = hd u" using u by (simp add: last_rev)
  moreover have "\<not> py_isspace (hd u)" using u unfolding u_def by (rule dropWhile_hd_not)
  ultimately have "\<not> py_isspace (hd (py_strip s))" using w by (simp add: s' hd_rev)
  with l show ?thesis by simp
qed










subsection \<open>The name loader\<close>

lemma parse_name_line_ok:
  assumes "4 \<le> length (split_fields l)" and "py_int lim (split_fields l ! 0) = Some i"
  shows "parse_name_line lim l = Inr (i, py_strip (split_fields l ! 1), py_strip (split_fields l ! 3))"
proof -
  have "0 < length (split_fields l)" "1 < length (split_fields l)" "3 < length (split_fields l)"
    using assms(1) by linarith+
  then show ?thesis
    using assms(2) by (simp add: parse_name_line_def py_index_def Let_def)
qed

lemma parse_name_line_name:
  assumes "parse_name_line lim l = Inr (t, n, c)"
  shows "\<exists>field. n = py_strip field"
  using assms
  by (auto simp: parse_name_line_def Let_def split: sum.splits option.splits)

lemma parse_names_loop_ok:
  assumes "\<forall>l \<in> set lines. \<exists>r. parse_name_line lim l = Inr r"
  shows "\<exists>d. parse_names_loop lim lines F acc = Inr d"
  using assms
proof (induction lines arbitrary: acc)
  case Nil
  show ?case by simp
next
  case (Cons a lines)
  then obtain t n c where "parse_name_line lim a = Inr (t, n, c)" by fastforce
  with Cons show ?case by simp
qed

lemma parse_names_loop_append:
  "parse_names_loop lim (pre @ post) F acc =
     (case parse_names_loop lim pre F acc of Inl e \<Rightarrow> Inl e | Inr acc' \<Rightarrow> parse_names_loop lim post F acc')"
  by (induction pre arbitrary: acc) (auto split: sum.splits)

lemma parse_names_loop_untouched:
  assumes "parse_names_loop lim lines F acc = Inr d"
    and "\<forall>l \<in> set lines. \<forall>n. parse_name_line lim l \<noteq> Inr (t, n, ''scientific name'')"
  shows "map_of d t = map_of acc t"
  using assms
proof (induction lines arbitrary: acc)
  case Nil
  then show ?case by simp
next
  case (Cons a lines)
  from Cons.prems(1) obtain t' n' c' where a: "parse_name_line lim a = Inr (t', n', c')"
    by (auto split: sum.splits)
  let ?acc = "if t' \<in> F \<and> c' = ''scientific name'' then AList.update t' n' acc else acc"
  have keep: "map_of ?acc t = map_of acc t"
  proof (cases "t' \<in> F \<and> c' = ''scientific name''")
    case True
    have "t' \<noteq> t"
    proof
      assume "t' = t"
      then have "parse_name_line lim a = Inr (t, n', ''scientific name'')" using a True by simp
      moreover have "a \<in> set (a # lines)" by simp
      ultimately show False using Cons.prems(2) by blast
    qed
    with True show ?thesis by (simp add: update_conv')
  next
    case False
    then show ?thesis by auto
  qed
  from Cons.prems(1) a have "parse_names_loop lim lines F ?acc = Inr d" by simp
  then have "map_of d t = map_of ?acc t"
    using Cons.prems(2) by (intro Cons.IH) auto
  with keep show ?case by simp
qed

lemma parse_names_last_wins:
  assumes "parse_names_loop lim (pre @ l # post) F acc = Inr d"
    and "t \<in> F" and "parse_name_line lim l = Inr (t, n, ''scientific name'')"
    and "\<forall>l' \<in> set post. \<forall>n'. parse_name_line lim l' \<noteq> Inr (t, n', ''scientific name'')"
  shows "map_of d t = Some n"
proof -
  from assms(1) obtain acc' where "parse_names_loop lim pre F acc = Inr acc'"
    and "parse_names_loop lim (l # post) F acc' = Inr d"
    by (auto simp: parse_names_loop_append split: sum.splits)
  then have "parse_names_loop lim post F (AList.update t n acc') = Inr d"
    using assms(2,3) by simp
  then have "map_of d t = map_of (AList.update t n acc') t"
    using assms(4) by (rule parse_names_loop_untouched)
  then show ?thesis by (simp add: update_conv')
qed

lemma parse_names_loop_keys:
  assumes "parse_names_loop lim lines F acc = Inr d"
  shows "fst ` set d = fst ` set acc \<union>
     {t \<in> F. \<exists>l \<in> set lines. \<exists>n. parse_name_line lim l = Inr (t, n, ''scientific name'')}"
  using assms
proof (induction lines arbitrary: acc)
  case Nil
  then show ?case by auto
next
  case (Cons a lines)
  from Cons.prems obtain t' n' c' where a: "parse_name_line lim a = Inr (t', n', c')"
    by (auto split: sum.splits)
  let ?acc = "if t' \<in> F \<and> c' = ''scientific name'' then AList.update t' n' acc else acc"
  from Cons.prems a have "parse_names_loop lim lines F ?acc = Inr d" by simp
  then have IH: "fst ` set d = fst ` set ?acc \<union>
     {t \<in> F. \<exists>l \<in> set lines. \<exists>n. parse_name_line lim l = Inr (t, n, ''scientific name'')}"
    by (rule Cons.IH)
  have acc: "fst ` set ?acc = fst ` set acc \<union>
     {t \<in> F. \<exists>n. parse_name_line lim a = Inr (t, n, ''scientific name'')}"
    using a by (auto simp: dom_update)
  show ?case unfolding IH acc by auto
qed

lemma set_alist_update_subset: "set (AList.update k v al) \<subseteq> insert (k, v) (set al)"
  by (induction al) auto

lemma parse_names_loop_entries:
  assumes "parse_names_loop lim lines F acc = Inr d" and "(t, n) \<in> set d"
  shows "(t, n) \<in> set acc \<or> (\<exists>l \<in> set lines. \<exists>c. parse_name_line lim l = Inr (t, n, c))"
  using assms
proof (induction lines arbitrary: acc)
  case Nil
  then show ?case by simp
next
  case (Cons a lines)
  from Cons.prems(1) obtain t' n' c' where a: "parse_name_line lim a = Inr (t', n', c')"
    by (auto split: sum.splits)
  let ?acc = "if t' \<in> F \<and> c' = ''scientific name'' then AList.update t' n' acc else acc"
  from Cons.prems(1) a have "parse_names_loop lim lines F ?acc = Inr d" by simp
  from Cons.IH[OF this Cons.prems(2)]
  consider "(t, n) \<in> set ?acc" | "\<exists>l \<in> set lines. \<exists>c. parse_name_line lim l = Inr (t, n, c)"
    by blast
  then show ?case
  proof cases
    case 1
    have "set ?acc \<subseteq> insert (t', n') (set acc)"
      using set_alist_update_subset[of t' n' acc] by auto
    with 1 have "(t, n) = (t', n') \<or> (t, n) \<in> set acc" by auto
    then show ?thesis using a by auto
  next
    case 2
    then show ?thesis by auto
  qed
qed

text \<open>
  Claim C6. On a well-formed names input (every line has at least 4 fields and a first
  field that is an integer for \<^verbatim>\<open>int\<close>) and any subtree set, \<open>parse_names\<close> returns a
  mapping. The record of a line is its id, its trimmed second field and its trimmed fourth
  field, the name class. The mapping has an entry for a taxon id if and only if the id is
  in the subtree set and some record of that id has the name class \<open>scientific name\<close>;
  the entry is the name of the last such record; every stored name is free of surrounding
  whitespace. This holds for every setting \<open>lim\<close> of the interpreter's digit limit.
\<close>

theorem parse_names_filter_last_wins_trimmed:
  assumes wf: "\<forall>l \<in> set lines. 4 \<le> length (split_fields l) \<and> py_int lim (split_fields l ! 0) \<noteq> None"
  shows "\<exists>names. parse_names lim lines taxid_filter = Inr names \<and>
     (\<forall>l \<in> set lines. \<exists>t. py_int lim (split_fields l ! 0) = Some t \<and>
        parse_name_line lim l = Inr (t, py_strip (split_fields l ! 1), py_strip (split_fields l ! 3))) \<and>
     (\<forall>t. t \<in> fst ` set names \<longleftrightarrow>
        t \<in> taxid_filter \<and> (\<exists>l \<in> set lines. \<exists>n. parse_name_line lim l = Inr (t, n, ''scientific name''))) \<and>
     (\<forall>pre l post t n.
        lines = pre @ l # post \<and> t \<in> taxid_filter \<and>
        parse_name_line lim l = Inr (t, n, ''scientific name'') \<and>
        (\<forall>l' \<in> set post. \<forall>n'. parse_name_line lim l' \<noteq> Inr (t, n', ''scientific name''))
        \<longrightarrow> map_of names t = Some n) \<and>
     (\<forall>(t, n) \<in> set names. n = [] \<or> (\<not> py_isspace (hd n) \<and> \<not> py_isspace (last n)))"
proof -
  have rec: "\<forall>l \<in> set lines. \<exists>t. py_int lim (split_fields l ! 0) = Some t \<and>
        parse_name_line lim l = Inr (t, py_strip (split_fields l ! 1), py_strip (split_fields l ! 3))"
  proof
    fix l assume "l \<in> set lines"
    with wf have "4 \<le> length (split_fields l)" and "\<exists>t. py_int lim (split_fields l ! 0) = Some t"
      by auto
    then show "\<exists>t. py_int lim (split_fields l ! 0) = Some t \<and>
        parse_name_line lim l = Inr (t, py_strip (split_fields l ! 1), py_strip (split_fields l ! 3))"
      using parse_name_line_ok by blast
  qed
  then have "\<forall>l \<in> set lines. \<exists>r. parse_name_line lim l = Inr r" by blast
  then obtain names where names: "parse_names_loop lim lines taxid_filter [] = Inr names"
    using parse_names_loop_ok by blast
  have keys: "\<forall>t. t \<in> fst ` set names \<longleftrightarrow>
        t \<in> taxid_filter \<and> (\<exists>l \<in> set lines. \<exists>n. parse_name_line lim l = Inr (t, n, ''scientific name''))"
    using parse_names_loop_keys[OF names] by auto
  have last: "\<forall>pre l post t n.
        lines = pre @ l # post \<and> t \<in> taxid_filter \<and>
        parse_name_line lim l = Inr (t, n, ''scientific name'') \<and>
        (\<forall>l' \<in> set post. \<forall>n'. parse_name_line lim l' \<noteq> Inr (t, n', ''scientific name''))
        \<longrightarrow> map_of names t = Some n"
    using names parse_names_last_wins by blast
  have trimmed: "\<forall>(t, n) \<in> set names. n = [] \<or> (\<not> py_isspace (hd n) \<and> \<not> py_isspace (last n))"
  proof -
    have "n = [] \<or> (\<not> py_isspace (hd n) \<and> \<not> py_isspace (last n))" if "(t, n) \<in> set names" for t n
    proof -
      from parse_names_loop_entries[OF names that]
      obtain l c where "parse_name_line lim l = Inr (t, n, c)" by auto
      then obtain field where "n = py_strip field" using parse_name_line_name by blast
      then show ?thesis using py_strip_trimmed[of field] by simp
    qed
    then show ?thesis by auto
  qed
  from names rec keys last trimmed show ?thesis
    unfolding parse_names_def by blast
qed

theorem parse_names_witness:
  "list_all (\<lambda>l. 4 \<le> length (split_fields l) \<and> py_int 4300 (split_fields l ! 0) \<noteq> None)
     example_name_lines \<and>
   (\<exists>names. parse_names 4300 example_name_lines {7} = Inr names \<and>
      7 \<in> fst ` set names \<and> 8 \<notin> fst ` set names \<and> map_of names 7 = Some ''Beta'')"
proof -
  let ?l1 = "''7'' @ field_sep @ ''Alpha'' @ field_sep @ field_sep @ ''scientific name'' @ field_sep @ ''x''"
  let ?l2 = "''7'' @ field_sep @ '' Beta '' @ field_sep @ field_sep @ ''scientific name'' @ field_sep @ ''x''"
  let ?l3 = "''7'' @ field_sep @ ''Gamma'' @ field_sep @ field_sep @ ''synonym'' @ field_sep @ ''x''"
  have wf: "\<forall>l \<in> set example_name_lines.
      4 \<le> length (split_fields l) \<and> py_int 4300 (split_fields l ! 0) \<noteq> None"
    by (simp add: eval_fields)
  have l2: "parse_name_line 4300 ?l2 = Inr (7, ''Beta'', ''scientific name'')"
    by (simp add: parse_name_line_def eval_fields)
  have l3: "parse_name_line 4300 ?l3 = Inr (7, ''Gamma'', ''synonym'')"
    by (simp add: parse_name_line_def eval_fields)
  from parse_names_filter_last_wins_trimmed[OF wf, of "{7}"]
  obtain names where names: "parse_names 4300 example_name_lines {7} = Inr names \<and>
     (\<forall>l \<in> set example_name_lines. \<exists>t. py_int 4300 (split_fields l ! 0) = Some t \<and>
        parse_name_line 4300 l = Inr (t, py_strip (split_fields l ! 1), py_strip (split_fields l ! 3))) \<and>
     (\<forall>t. t \<in> fst ` set names \<longleftrightarrow>
        t \<in> {7} \<and> (\<exists>l \<in> set example_name_lines. \<exists>n. parse_name_line 4300 l = Inr (t, n, ''scientific name''))) \<and>
     (\<forall>pre l post t n.
        example_name_lines = pre @ l # post \<and> t \<in> {7} \<and>
        parse_name_line 4300 l = Inr (t, n, ''scientific name'') \<and>
        (\<forall>l' \<in> set post. \<forall>n'. parse_name_line 4300 l' \<noteq> Inr (t, n', ''scientific name''))
        \<longrightarrow> map_of names t = Some n) \<and>
     (\<forall>(t, n) \<in> set names. n = [] \<or> (\<not> py_isspace (hd n) \<and> \<not> py_isspace (last n)))" ..
  note res = names[THEN conjunct1]
  note keys = names[THEN conjunct2, THEN conjunct2, THEN conjunct1, rule_format]
  note last = names[THEN conjunct2, THEN conjunct2, THEN conjunct2, THEN conjunct1, rule_format]
  have in7: "(7::int) \<in> {7} \<and>
      (\<exists>l \<in> set example_name_lines. \<exists>n. parse_name_line 4300 l = Inr (7, n, ''scientific name''))"
  proof (intro conjI bexI[of _ ?l2] exI[of _ "''Beta''"])
    show "(7::int) \<in> {7}" by simp
    show "parse_name_line 4300 ?l2 = Inr (7, ''Beta'', ''scientific name'')" by (rule l2)
    show "?l2 \<in> set example_name_lines" by simp
  qed
  have k7: "7 \<in> fst ` set names" by (rule keys[THEN iffD2, OF in7])
  have k8: "8 \<notin> fst ` set names"
  proof
    assume "8 \<in> fst ` set names"
    from keys[THEN iffD1, OF this] have "(8::int) \<in> {7}" by (rule conjunct1)
    then show False by simp
  qed
  have prem: "example_name_lines = [?l1] @ ?l2 # [?l3] \<and> (7::int) \<in> {7} \<and>
      parse_name_line 4300 ?l2 = Inr (7, ''Beta'', ''scientific name'') \<and>
      (\<forall>l' \<in> set [?l3]. \<forall>n'. parse_name_line 4300 l' \<noteq> Inr (7, n', ''scientific name''))"
    using l2 l3 by simp
  have v7: "map_of names 7 = Some ''Beta''" by (rule last[OF prem])
  have "\<exists>names. parse_names 4300 example_name_lines {7} = Inr names \<and>
      7 \<in> fst ` set names \<and> 8 \<notin> fst ` set names \<and> map_of names 7 = Some ''Beta''"
    using res k7 k8 v7 by (intro exI[of _ names] conjI)
  moreover have "list_all (\<lambda>l. 4 \<le> length (split_fields l) \<and> py_int 4300 (split_fields l ! 0) \<noteq> None)
     example_name_lines"
    by (simp add: eval_fields)
  ultimately show ?thesis by (intro conjI)
qed

section \<open>Claims about the renderer\<close>

lemma write_divisions_eq: "write_divisions divisions out = out @ map division_insert divisions"
  unfolding write_divisions_def
  by (induction divisions arbitrary: out) simp_all

lemma write_names_eq:
  "write_names names out = out @ map (\<lambda>(tax_id, name). taxon_name_insert tax_id (sql_escape name)) names"
  unfolding write_names_def
  by (induction names arbitrary: out) (simp_all add: case_prod_beta)

lemma write_taxa_ok:
  assumes "\<forall>t \<in> set ids. t \<in> fst ` set nodes"
  shows "\<exists>rows. write_taxa nodes ids out = Inr (out @ rows) \<and>
     list_all2 (\<lambda>t row. \<exists>p r d. map_of nodes t = Some (p, r, d) \<and>
                  row = taxon_insert t p (sql_escape r) d) ids rows"
  using assms
proof (induction ids arbitrary: out)
  case Nil
  show ?case by simp
next
  case (Cons t ids)
  from Cons.prems have "t \<in> fst ` set nodes" by simp
  then have "map_of nodes t \<noteq> None" by (simp add: map_of_eq_None_iff)
  then obtain p r d where look: "map_of nodes t = Some (p, r, d)" by (cases "map_of nodes t") auto
  let ?row = "taxon_insert t p (sql_escape r) d"
  from Cons.IH[of "out @ [?row]"] Cons.prems
  obtain rows where rows: "write_taxa nodes ids (out @ [?row]) = Inr ((out @ [?row]) @ rows)"
    and all: "list_all2 (\<lambda>t row. \<exists>p r d. map_of nodes t = Some (p, r, d) \<and>
                  row = taxon_insert t p (sql_escape r) d) ids rows"
    by auto
  have "write_taxa nodes (t # ids) out = Inr (out @ (?row # rows))"
    using look rows by simp
  moreover have "list_all2 (\<lambda>t row. \<exists>p r d. map_of nodes t = Some (p, r, d) \<and>
                  row = taxon_insert t p (sql_escape r) d) (t # ids) (?row # rows)"
    using look all by simp
  ultimately show ?case by blast
qed

lemma write_taxa_fail:
  assumes "write_taxa nodes ids out = Inl e"
  shows "\<exists>t \<in> set ids. e = KeyError t \<and> t \<notin> fst ` set nodes"
  using assms
proof (induction ids arbitrary: out)
  case Nil
  then show ?case by simp
next
  case (Cons t ids)
  show ?case
  proof (cases "map_of nodes t")
    case None
    then have "t \<notin> fst ` set nodes" by (simp add: map_of_eq_None_iff)
    moreover from None Cons.prems have "e = KeyError t" by simp
    ultimately show ?thesis by simp
  next
    case (Some n)
    obtain p r d where "n = (p, r, d)" by (cases n) auto
    with Some Cons.prems
    have "write_taxa nodes ids (out @ [taxon_insert t p (sql_escape r) d]) = Inl e" by simp
    from Cons.IH[OF this] show ?thesis by auto
  qed
qed

lemma write_taxa_missing:
  assumes "t \<in> set ids" and "t \<notin> fst ` set nodes"
  shows "\<exists>e. write_taxa nodes ids out = Inl e"
  using assms
proof (induction ids arbitrary: out)
  case Nil
  then show ?case by simp
next
  case (Cons a ids)
  show ?case
  proof (cases "map_of nodes a")
    case None
    then show ?thesis by simp
  next
    case (Some n)
    then have "a \<in> fst ` set nodes" by (metis map_of_eq_None_iff option.distinct(1))
    with Cons.prems have "t \<in> set ids" by auto
    from Cons.IH[OF this Cons.prems(2)] Some show ?thesis by (cases n) simp
  qed
qed

lemma export_sql_success:
  assumes fin: "finite taxids" and known: "taxids \<subseteq> fst ` set nodes"
  shows "\<exists>rows.
     export_sql_with_division nodes names taxids divisions =
       Inr (division_schema @ map division_insert divisions @ [[nl]] @ taxon_schema @
            taxon_name_schema @ rows @ [[nl]] @
            map (\<lambda>(tax_id, name). taxon_name_insert tax_id (sql_escape name)) names) \<and>
     list_all2 (\<lambda>t row. \<exists>p r d. map_of nodes t = Some (p, r, d) \<and>
                  row = taxon_insert t p (sql_escape r) d) (sorted_list_of_set taxids) rows"
proof -
  let ?ids = "sorted_list_of_set taxids"
  let ?out = "division_schema @ map division_insert divisions @ [[nl]] @ taxon_schema @ taxon_name_schema"
  have "\<forall>t \<in> set ?ids. t \<in> fst ` set nodes" using known fin by auto
  from write_taxa_ok[OF this, of ?out]
  obtain rows where rows: "write_taxa nodes ?ids ?out = Inr (?out @ rows)"
    and all: "list_all2 (\<lambda>t row. \<exists>p r d. map_of nodes t = Some (p, r, d) \<and>
                  row = taxon_insert t p (sql_escape r) d) ?ids rows"
    by blast
  have "export_sql_with_division nodes names taxids divisions =
       Inr (division_schema @ map division_insert divisions @ [[nl]] @ taxon_schema @
            taxon_name_schema @ rows @ [[nl]] @
            map (\<lambda>(tax_id, name). taxon_name_insert tax_id (sql_escape name)) names)"
    using rows by (simp add: export_sql_with_division_def write_divisions_eq write_names_eq)
  with all show ?thesis by blast
qed

lemma export_fail:
  assumes "finite taxids" and "export_sql_with_division nodes names taxids divisions = Inl e"
  shows "\<exists>t \<in> taxids. e = KeyError t \<and> t \<notin> fst ` set nodes"
proof -
  from assms(2) obtain out where "write_taxa nodes (sorted_list_of_set taxids) out = Inl e"
    by (auto simp: export_sql_with_division_def Let_def split: sum.splits)
  from write_taxa_fail[OF this] assms(1) show ?thesis by simp
qed

lemma export_missing:
  assumes "finite taxids" and "t \<in> taxids" and "t \<notin> fst ` set nodes"
  shows "\<exists>e. export_sql_with_division nodes names taxids divisions = Inl e"
proof -
  let ?out = "division_schema @ map division_insert divisions @ [[nl]] @ taxon_schema @ taxon_name_schema"
  have "t \<in> set (sorted_list_of_set taxids)" using assms(1,2) by simp
  from write_taxa_missing[OF this assms(3), of ?out]
  obtain e where "write_taxa nodes (sorted_list_of_set taxids) ?out = Inl e" ..
  then show ?thesis
    by (simp add: export_sql_with_division_def write_divisions_eq)
qed

subsection \<open>The decimal text of an integer\<close>

lemma digit_table:
  assumes "d < 10"
  shows "py_isdigit (''0123456789'' ! d) \<and> of_char (''0123456789'' ! d) - 48 = d \<and>
         \<not> py_int_isspace (''0123456789'' ! d) \<and>
         ''0123456789'' ! d \<noteq> CHR ''-'' \<and> ''0123456789'' ! d \<noteq> CHR ''+''"
proof -
  from assms have "d = 0 \<or> d = 1 \<or> d = 2 \<or> d = 3 \<or> d = 4 \<or> d = 5 \<or> d = 6 \<or> d = 7 \<or> d = 8 \<or> d = 9"
    by arith
  then show ?thesis
    by (elim disjE) (simp_all add: py_isdigit_def py_int_isspace_def)
qed

lemma str_nat_nonempty: "str_nat n \<noteq> []"
  by (subst str_nat.simps) simp

lemma str_nat_hd: "py_isdigit (hd (str_nat n)) \<and> \<not> py_int_isspace (hd (str_nat n)) \<and>
    hd (str_nat n) \<noteq> CHR ''-'' \<and> hd (str_nat n) \<noteq> CHR ''+''"
proof (induction n rule: str_nat.induct)
  case (1 n)
  show ?case
  proof (cases "n < 10")
    case True
    then show ?thesis using digit_table[of n] by (subst (1 2 3 4) str_nat.simps) simp
  next
    case False
    then have "hd (str_nat n) = hd (str_nat (n div 10))"
      by (subst str_nat.simps) (simp add: str_nat_nonempty)
    with 1 False show ?thesis by simp
  qed
qed

lemma str_nat_last: "\<not> py_int_isspace (last (str_nat n))"
proof -
  have "n mod 10 < 10" by simp
  then show ?thesis
    using digit_table[of n] digit_table[of "n mod 10"]
    by (subst str_nat.simps) (simp add: str_nat_nonempty)
qed

lemma py_digits_str_nat:
  "py_digits acc (str_nat n @ t) = py_digits (acc * 10 ^ length (str_nat n) + n) t"
proof (induction n arbitrary: acc t rule: str_nat.induct)
  case (1 n)
  show ?case
  proof (cases "n < 10")
    case True
    then have s: "str_nat n = [''0123456789'' ! n]" by (subst str_nat.simps) simp
    show ?thesis unfolding s using digit_table[OF True] by (simp add: mult.commute)
  next
    case False
    have d: "n mod 10 < 10" by simp
    from False have s: "str_nat n = str_nat (n div 10) @ [''0123456789'' ! (n mod 10)]"
      by (subst str_nat.simps) simp
    have "py_digits acc (str_nat n @ t) =
          py_digits (acc * 10 ^ length (str_nat (n div 10)) + n div 10)
            (''0123456789'' ! (n mod 10) # t)"
      unfolding s using "1.IH"[OF False] by simp
    also have "\<dots> = py_digits (10 * (acc * 10 ^ length (str_nat (n div 10)) + n div 10) + n mod 10) t"
      using digit_table[OF d] by simp
    also have "10 * (acc * 10 ^ length (str_nat (n div 10)) + n div 10) + n mod 10 =
               acc * 10 ^ length (str_nat n) + n"
      unfolding s by (simp add: algebra_simps)
    finally show ?thesis .
  qed
qed

lemma py_unsigned_str_nat: "py_unsigned 0 (str_nat n) = Some n"
  using py_digits_str_nat[of 0 n "[]"] str_nat_hd[of n]
  by (simp add: py_unsigned_def too_many_digits_def str_nat_nonempty Let_def)

lemma int_strip_id:
  assumes "s \<noteq> []" "\<not> py_int_isspace (hd s)" "\<not> py_int_isspace (last s)"
  shows "rev (dropWhile py_int_isspace (rev (dropWhile py_int_isspace s))) = s"
proof -
  have "dropWhile py_int_isspace s = s" using assms(1,2) by (cases s) simp_all
  moreover have "dropWhile py_int_isspace (rev s) = rev s"
    using assms(1,3) by (cases "rev s") (simp_all add: last_rev[symmetric] hd_rev)
  ultimately show ?thesis by simp
qed

lemma py_int_str_int: "py_int 0 (str_int i) = Some i"
proof (cases "i < 0")
  case True
  let ?s = "CHR ''-'' # str_nat (nat (- i))"
  have "rev (dropWhile py_int_isspace (rev (dropWhile py_int_isspace ?s))) = ?s"
    using str_nat_last[of "nat (- i)"]
    by (intro int_strip_id) (simp_all add: str_nat_nonempty py_int_isspace_def)
  then show ?thesis
    using True by (simp add: py_int_def str_int_def py_unsigned_str_nat)
next
  case False
  let ?s = "str_nat (nat i)"
  obtain c cs where s: "?s = c # cs" using str_nat_nonempty[of "nat i"] by (cases ?s) auto
  have "rev (dropWhile py_int_isspace (rev (dropWhile py_int_isspace ?s))) = ?s"
    using str_nat_last[of "nat i"] str_nat_hd[of "nat i"]
    by (intro int_strip_id) (simp_all add: str_nat_nonempty)
  moreover have "c \<noteq> CHR ''-''" "c \<noteq> CHR ''+''"
    using str_nat_hd[of "nat i"] s by simp_all
  moreover have "py_unsigned 0 (c # cs) = Some (nat i)"
    using py_unsigned_str_nat[of "nat i"] s by simp
  ultimately show ?thesis
    using False s by (simp add: py_int_def str_int_def)
qed

subsection \<open>Order of the rows\<close>

text \<open>
  Claim C7. When every selected taxon is a key of the node mapping, the output is the
  division part, the two remaining schemas, one taxon INSERT statement per member of the
  subtree set in strictly ascending order of taxon id, a blank line, and one taxon-name
  INSERT statement per entry of the name mapping in the mapping's own order. Each
  statement is given as the text written, and the decimal text of an id in it reads back
  as that id.
\<close>

theorem export_insert_order:
  assumes fin: "finite taxids" and known: "taxids \<subseteq> fst ` set nodes"
  shows "\<exists>ids rows.
     export_sql_with_division nodes names taxids divisions =
       Inr (division_schema @
            map (\<lambda>(div_id, code, name, comment).
                   ''INSERT INTO division VALUES ('' @ str_int div_id @ '', '' @
                   [CHR 0x27] @ code @ [CHR 0x27] @ '', '' @ [CHR 0x27] @ name @ [CHR 0x27] @
                   '', '' @ [CHR 0x27] @ comment @ [CHR 0x27] @ '');'' @ [CHR 0x0A]) divisions @
            [[CHR 0x0A]] @ taxon_schema @ taxon_name_schema @ rows @ [[CHR 0x0A]] @
            map (\<lambda>(tax_id, name).
                   ''INSERT INTO taxon_name VALUES ('' @ str_int tax_id @ '', '' @
                   [CHR 0x27] @ sql_escape name @ [CHR 0x27] @ '');'' @ [CHR 0x0A]) names) \<and>
     set ids = taxids \<and> sorted_wrt (<) ids \<and>
     list_all2 (\<lambda>t row. \<exists>p r d. map_of nodes t = Some (p, r, d) \<and>
                  row = ''INSERT INTO taxon VALUES ('' @ str_int t @ '', '' @ str_int p @ '', '' @
                        [CHR 0x27] @ sql_escape r @ [CHR 0x27] @ '', '' @ str_int d @ '');'' @
                        [CHR 0x0A]) ids rows \<and>
     (\<forall>i. py_int 0 (str_int i) = Some i)"
proof -
  have div: "division_insert = (\<lambda>(div_id, code, name, comment).
                   ''INSERT INTO division VALUES ('' @ str_int div_id @ '', '' @
                   [CHR 0x27] @ code @ [CHR 0x27] @ '', '' @ [CHR 0x27] @ name @ [CHR 0x27] @
                   '', '' @ [CHR 0x27] @ comment @ [CHR 0x27] @ '');'' @ [CHR 0x0A])"
    by (simp add: division_insert_def sq_def nl_def fun_eq_iff)
  have ids: "set (sorted_list_of_set taxids) = taxids" "sorted_wrt (<) (sorted_list_of_set taxids)"
    using fin by (simp_all add: strict_sorted_iff[symmetric])
  from export_sql_success[OF fin known, of names divisions]
  obtain rows where out: "export_sql_with_division nodes names taxids divisions =
       Inr (division_schema @ map division_insert divisions @ [[nl]] @ taxon_schema @
            taxon_name_schema @ rows @ [[nl]] @
            map (\<lambda>(tax_id, name). taxon_name_insert tax_id (sql_escape name)) names)"
    and rows: "list_all2 (\<lambda>t row. \<exists>p r d. map_of nodes t = Some (p, r, d) \<and>
                  row = taxon_insert t p (sql_escape r) d) (sorted_list_of_set taxids) rows"
    by blast
  have out': "export_sql_with_division nodes names taxids divisions =
       Inr (division_schema @
            map (\<lambda>(div_id, code, name, comment).
                   ''INSERT INTO division VALUES ('' @ str_int div_id @ '', '' @
                   [CHR 0x27] @ code @ [CHR 0x27] @ '', '' @ [CHR 0x27] @ name @ [CHR 0x27] @
                   '', '' @ [CHR 0x27] @ comment @ [CHR 0x27] @ '');'' @ [CHR 0x0A]) divisions @
            [[CHR 0x0A]] @ taxon_schema @ taxon_name_schema @ rows @ [[CHR 0x0A]] @
            map (\<lambda>(tax_id, name).
                   ''INSERT INTO taxon_name VALUES ('' @ str_int tax_id @ '', '' @
                   [CHR 0x27] @ sql_escape name @ [CHR 0x27] @ '');'' @ [CHR 0x0A]) names)"
    unfolding out div by (simp add: taxon_name_insert_def sq_def nl_def)
  have rows': "list_all2 (\<lambda>t row. \<exists>p r d. map_of nodes t = Some (p, r, d) \<and>
                  row = ''INSERT INTO taxon VALUES ('' @ str_int t @ '', '' @ str_int p @ '', '' @
                        [CHR 0x27] @ sql_escape r @ [CHR 0x27] @ '', '' @ str_int d @ '');'' @
                        [CHR 0x0A]) (sorted_list_of_set taxids) rows"
    using rows by (simp add: taxon_insert_def sq_def nl_def)
  have reads: "\<forall>i. py_int 0 (str_int i) = Some i" by (simp add: py_int_str_int)
  from out' ids rows' reads show ?thesis by blast
qed

theorem export_insert_order_witness:
  "finite {1, 2, 3, 4 :: int} \<and> {1, 2, 3, 4} \<subseteq> fst ` set example_nodes \<and>
   (\<exists>ids rows.
      export_sql_with_division example_nodes [(4, ''Rosa''), (1, ''Plantae'')] {1, 2, 3, 4} [] =
        Inr (division_schema @ [[CHR 0x0A]] @ taxon_schema @ taxon_name_schema @ rows @
             [[CHR 0x0A]] @
             [''INSERT INTO taxon_name VALUES (4, 'Rosa');'' @ [CHR 0x0A],
              ''INSERT INTO taxon_name VALUES (1, 'Plantae');'' @ [CHR 0x0A]]) \<and>
      set ids = {1, 2, 3, 4} \<and> sorted_wrt (<) ids \<and>
      list_all2 (\<lambda>t row. \<exists>p r d. map_of example_nodes t = Some (p, r, d) \<and>
                  row = ''INSERT INTO taxon VALUES ('' @ str_int t @ '', '' @ str_int p @ '', '' @
                        [CHR 0x27] @ sql_escape r @ [CHR 0x27] @ '', '' @ str_int d @ '');'' @
                        [CHR 0x0A]) ids rows) \<and>
   py_int 0 (str_int 1234) = Some 1234"
proof -
  have fin: "finite {1, 2, 3, 4 :: int}" by simp
  have known: "{1, 2, 3, 4} \<subseteq> fst ` set example_nodes" by simp
  from export_insert_order[OF fin known, of "[(4, ''Rosa''), (1, ''Plantae'')]" "[]"]
  obtain ids rows where
    out: "export_sql_with_division example_nodes [(4, ''Rosa''), (1, ''Plantae'')] {1, 2, 3, 4} [] =
       Inr (division_schema @
            map (\<lambda>(div_id, code, name, comment).
                   ''INSERT INTO division VALUES ('' @ str_int div_id @ '', '' @
                   [CHR 0x27] @ code @ [CHR 0x27] @ '', '' @ [CHR 0x27] @ name @ [CHR 0x27] @
                   '', '' @ [CHR 0x27] @ comment @ [CHR 0x27] @ '');'' @ [CHR 0x0A]) [] @
            [[CHR 0x0A]] @ taxon_schema @ taxon_name_schema @ rows @ [[CHR 0x0A]] @
            map (\<lambda>(tax_id, name).
                   ''INSERT INTO taxon_name VALUES ('' @ str_int tax_id @ '', '' @
                   [CHR 0x27] @ sql_escape name @ [CHR 0x27] @ '');'' @ [CHR 0x0A])
              [(4, ''Rosa''), (1, ''Plantae'')])"
    and ids: "set ids = {1, 2, 3, 4}" "sorted_wrt (<) ids"
    and rows: "list_all2 (\<lambda>t row. \<exists>p r d. map_of example_nodes t = Some (p, r, d) \<and>
                  row = ''INSERT INTO taxon VALUES ('' @ str_int t @ '', '' @ str_int p @ '', '' @
                        [CHR 0x27] @ sql_escape r @ [CHR 0x27] @ '', '' @ str_int d @ '');'' @
                        [CHR 0x0A]) ids rows"
    and reads: "\<forall>i. py_int 0 (str_int i) = Some i"
    by blast
  have names: "map (\<lambda>(tax_id, name).
                   ''INSERT INTO taxon_name VALUES ('' @ str_int tax_id @ '', '' @
                   [CHR 0x27] @ sql_escape name @ [CHR 0x27] @ '');'' @ [CHR 0x0A])
              [(4, ''Rosa''), (1, ''Plantae'')] =
      [''INSERT INTO taxon_name VALUES (4, 'Rosa');'' @ [CHR 0x0A],
       ''INSERT INTO taxon_name VALUES (1, 'Plantae');'' @ [CHR 0x0A]]"
    by (simp add: str_int_def str_nat.simps sql_escape_def sq_def)
  have out': "export_sql_with_division example_nodes [(4, ''Rosa''), (1, ''Plantae'')] {1, 2, 3, 4} [] =
        Inr (division_schema @ [[CHR 0x0A]] @ taxon_schema @ taxon_name_schema @ rows @
             [[CHR 0x0A]] @
             [''INSERT INTO taxon_name VALUES (4, 'Rosa');'' @ [CHR 0x0A],
              ''INSERT INTO taxon_name VALUES (1, 'Plantae');'' @ [CHR 0x0A]])"
    unfolding out names by simp
  from reads have "py_int 0 (str_int 1234) = Some 1234" ..
  with fin known out' ids rows show ?thesis by blast
qed

text \<open>
  Claim C10. Every id that \<open>get_descendants\<close> returns, the root apart, is a key of the
  node mapping. So the renderer's lookups \<open>nodes[tax_id]\<close> all succeed on the returned set
  when the root is a key, and otherwise the run ends with the \<open>KeyError\<close> of the root.
\<close>

theorem descendants_are_nodes:
  "\<exists>S. get_descendants nodes root = Some S \<and>
     (\<forall>x \<in> S. x \<noteq> root \<longrightarrow> x \<in> fst ` set nodes) \<and>
     (if root \<in> fst ` set nodes
      then \<exists>out. export_sql_with_division nodes names S divisions = Inr out
      else export_sql_with_division nodes names S divisions = Inl (KeyError root))"
proof -
  let ?S = "reachable (build_children_map nodes) root"
  have S: "get_descendants nodes root = Some ?S"
    by (simp add: get_descendants_def bfs_loop_reachable)
  have root: "root \<in> ?S" by (simp add: reachable_def)
  have sub: "?S \<subseteq> insert root (fst ` set nodes)" by (rule reachable_keys)
  then have fin: "finite ?S" by (rule finite_subset) simp
  have a: "\<forall>x \<in> ?S. x \<noteq> root \<longrightarrow> x \<in> fst ` set nodes" using sub by auto
  have b: "\<exists>out. export_sql_with_division nodes names ?S divisions = Inr out"
    if "root \<in> fst ` set nodes"
  proof -
    from that sub have "?S \<subseteq> fst ` set nodes" by auto
    from export_sql_success[OF fin this] show ?thesis by blast
  qed
  have c: "export_sql_with_division nodes names ?S divisions = Inl (KeyError root)"
    if "root \<notin> fst ` set nodes"
  proof -
    from export_missing[OF fin root that]
    obtain e where e: "export_sql_with_division nodes names ?S divisions = Inl e" by blast
    from export_fail[OF fin e] obtain t where "t \<in> ?S" "e = KeyError t" "t \<notin> fst ` set nodes"
      by auto
    with a have "e = KeyError root" by auto
    with e show ?thesis by simp
  qed
  from S a b c show ?thesis by auto
qed

theorem descendants_are_nodes_witness:
  "(1 \<in> fst ` set example_nodes \<and>
    (\<exists>S. get_descendants example_nodes 1 = Some S \<and>
       (\<exists>out. export_sql_with_division example_nodes [] S [] = Inr out))) \<and>
   ((7::int) \<notin> fst ` set [(2::int, (7::int, ''genus'', 0::int))] \<and>
    (\<exists>S. get_descendants [(2, (7, ''genus'', 0))] 7 = Some S \<and>
       export_sql_with_division [(2, (7, ''genus'', 0))] [] S [] = Inl (KeyError 7)))"
  using descendants_are_nodes[of example_nodes 1 "[]" "[]"]
    descendants_are_nodes[of "[(2, (7, ''genus'', 0))]" 7 "[]" "[]"]
  by auto

text \<open>
  Claim C1 asks that every string value of an INSERT statement has its single quotes
  doubled. The rank and the taxon name pass through \<open>sql_escape\<close>; the fields of a
  division do not: the comment \<open>O'Brien\<close> reaches the output with its quote as it is.
\<close>

theorem division_comment_quote_not_doubled:
  "export_sql_with_division [] [] {} [(9, (''X'', ''Y'', ''O'Brien''))] =
     Inr (division_schema @
          [''INSERT INTO division VALUES (9, 'X', 'Y', 'O'Brien');'' @ [nl]] @
          [[nl]] @ taxon_schema @ taxon_name_schema @ [[nl]])"
  by (simp add: export_sql_with_division_def write_divisions_def write_names_def
      division_insert_def str_int_def str_nat.simps sq_def)

end
